theory Spec2Isabelle
  imports Main
begin

section \<open>The game engine contract\<close>

text \<open>
  The status of a game in progress is a tagged union with three cases; only the winning
  case carries a payload.
\<close>

datatype GameStatus = ongoing | win (winner: string) | draw

text \<open>
  An engine is a bundle of an identifier, a display name and the operations of one game.
  The interface is generic in the state and the move type; the board component is opaque
  here and is a third type parameter. The field \<open>id\<close> of the source is \<open>id_engine\<close>, since
  \<open>id\<close> is the identity function of HOL. Engines are treated as values: the registry only
  reads the identifier of an engine and never writes to one.
\<close>

record ('state, 'move, 'component) GameEngine =
  id_engine :: string
  name :: string
  getInitialState :: "unit \<Rightarrow> 'state"
  validateMove :: "'state \<Rightarrow> 'move \<Rightarrow> bool"
  applyMove :: "'state \<Rightarrow> 'move \<Rightarrow> 'state"
  getStatus :: "'state \<Rightarrow> GameStatus"
  serializeState :: "'state \<Rightarrow> string"
  renderBoard :: 'component
  buildPrompt :: "'state \<Rightarrow> 'move list \<Rightarrow> string"

section \<open>The built-in map the registry is stored in\<close>

text \<open>
  A JavaScript \<open>Map\<close> keeps its entries in the order in which their keys were first
  inserted, so it is an association list. \<open>set\<close> on a key that is present replaces the
  value where the key stands; on a new key it appends an entry. \<open>get\<close> returns
  \<open>undefined\<close> for a key that is absent, which is \<open>None\<close> here. \<open>values\<close> iterates
  the values in entry order and \<open>Array.from\<close> collects an iteration into an array.
\<close>

type_synonym ('k, 'v) Map = "('k \<times> 'v) list"

definition new_Map :: "('k, 'v) Map" where
  "new_Map = []"

fun Map_set :: "'k \<Rightarrow> 'v \<Rightarrow> ('k, 'v) Map \<Rightarrow> ('k, 'v) Map" where
  "Map_set k v [] = [(k, v)]"
| "Map_set k v ((k', v') # m) =
     (if k' = k then (k, v) # m else (k', v') # Map_set k v m)"

fun Map_get :: "'k \<Rightarrow> ('k, 'v) Map \<Rightarrow> 'v option" where
  "Map_get k [] = None"
| "Map_get k ((k', v') # m) = (if k' = k then Some v' else Map_get k m)"

definition Map_values :: "('k, 'v) Map \<Rightarrow> 'v list" where
  "Map_values m = map snd m"

definition Array_from :: "'a list \<Rightarrow> 'a list" where
  "Array_from xs = xs"

section \<open>The registry\<close>

type_synonym ('s, 'm, 'c) registry = "(string, ('s, 'm, 'c) GameEngine) Map"

text \<open>The registry of a fresh process: \<open>const gameRegistry = new Map()\<close>.\<close>

definition gameRegistry :: "('s, 'm, 'c) registry" where
  "gameRegistry = new_Map"

text \<open>
  The three exported functions, with the module-level map passed explicitly.
  \<open>registerGame\<close> returns nothing in the source, so its value here is the updated map;
  the two readers return their result and leave the map as it is.
\<close>

definition registerGame ::
  "('s, 'm, 'c) GameEngine \<Rightarrow> ('s, 'm, 'c) registry \<Rightarrow> ('s, 'm, 'c) registry" where
  "registerGame engine reg = Map_set (id_engine engine) engine reg"

definition getGame ::
  "string \<Rightarrow> ('s, 'm, 'c) registry \<Rightarrow> ('s, 'm, 'c) GameEngine option" where
  "getGame ident reg = Map_get ident reg"

definition getAllGames :: "('s, 'm, 'c) registry \<Rightarrow> ('s, 'm, 'c) GameEngine list" where
  "getAllGames reg = Array_from (Map_values reg)"

section \<open>Sequences of calls\<close>

text \<open>
  A caller can only reach the registry through the three exported functions. A call is
  one of them with its argument; what it hands back is nothing, an engine or
  \<open>undefined\<close>, or an array of engines. \<open>exec\<close> performs one call on a registry and
  gives the returned value with the registry afterwards.
\<close>

datatype ('s, 'm, 'c) call =
  RegisterGame "('s, 'm, 'c) GameEngine"
| GetGame string
| GetAllGames

datatype ('s, 'm, 'c) returned =
  Void
| Engine "('s, 'm, 'c) GameEngine option"
| Engines "('s, 'm, 'c) GameEngine list"

fun exec ::
  "('s, 'm, 'c) call \<Rightarrow> ('s, 'm, 'c) registry \<Rightarrow> ('s, 'm, 'c) returned \<times> ('s, 'm, 'c) registry"
  where
  "exec (RegisterGame engine) reg = (Void, registerGame engine reg)"
| "exec (GetGame ident) reg = (Engine (getGame ident reg), reg)"
| "exec GetAllGames reg = (Engines (getAllGames reg), reg)"

text \<open>The registry after a sequence of calls, and the values the calls returned.\<close>

fun after :: "('s, 'm, 'c) call list \<Rightarrow> ('s, 'm, 'c) registry \<Rightarrow> ('s, 'm, 'c) registry" where
  "after [] reg = reg"
| "after (c # cs) reg = after cs (snd (exec c reg))"

fun results ::
  "('s, 'm, 'c) call list \<Rightarrow> ('s, 'm, 'c) registry \<Rightarrow> ('s, 'm, 'c) returned list" where
  "results [] reg = []"
| "results (c # cs) reg = fst (exec c reg) # results cs (snd (exec c reg))"

subsection \<open>What a sequence of calls registered\<close>

text \<open>The engines passed to \<open>registerGame\<close>, in call order.\<close>

fun registrations :: "('s, 'm, 'c) call list \<Rightarrow> ('s, 'm, 'c) GameEngine list" where
  "registrations [] = []"
| "registrations (RegisterGame engine # cs) = engine # registrations cs"
| "registrations (GetGame ident # cs) = registrations cs"
| "registrations (GetAllGames # cs) = registrations cs"

definition registered_ids :: "('s, 'm, 'c) call list \<Rightarrow> string list" where
  "registered_ids cs = map id_engine (registrations cs)"

text \<open>The engine of the last registration under an identifier, if there was one.\<close>

fun last_registered ::
  "string \<Rightarrow> ('s, 'm, 'c) GameEngine list \<Rightarrow> ('s, 'm, 'c) GameEngine option" where
  "last_registered ident [] = None"
| "last_registered ident (e # es) =
     (case last_registered ident es of
        Some later \<Rightarrow> Some later
      | None \<Rightarrow> if id_engine e = ident then Some e else None)"

text \<open>The elements of a list without repetition, each where it occurs first.\<close>

fun first_occurrences :: "'a list \<Rightarrow> 'a list" where
  "first_occurrences [] = []"
| "first_occurrences (x # xs) = x # removeAll x (first_occurrences xs)"

subsection \<open>Engines for the example scenarios\<close>

text \<open>An engine over trivial state and moves; only identifier and name matter below.\<close>

definition example_engine :: "string \<Rightarrow> string \<Rightarrow> (unit, unit, unit) GameEngine" where
  "example_engine ident display =
     \<lparr> id_engine = ident, name = display,
       getInitialState = (\<lambda>u. ()),
       validateMove = (\<lambda>s mv. False),
       applyMove = (\<lambda>s mv. s),
       getStatus = (\<lambda>s. ongoing),
       serializeState = (\<lambda>s. []),
       renderBoard = (),
       buildPrompt = (\<lambda>s hist. []) \<rparr>"

section \<open>Facts about the built-in map\<close>

lemma Map_get_set_same: "Map_get k (Map_set k v m) = Some v"
  by (induction m) auto

lemma Map_get_set_other: "k' \<noteq> k \<Longrightarrow> Map_get k' (Map_set k v m) = Map_get k' m"
  by (induction m) auto

lemma Map_get_None_iff: "Map_get k m = None \<longleftrightarrow> k \<notin> fst ` set m"
proof (induction m)
  case Nil
  then show ?case by simp
next
  case (Cons p m)
  obtain k' v' where p: "p = (k', v')" by (cases p)
  show ?case using Cons.IH by (cases "k' = k") (simp_all add: p)
qed

lemma keys_Map_set:
  "map fst (Map_set k v m) = (if k \<in> fst ` set m then map fst m else map fst m @ [k])"
proof (induction m)
  case Nil
  then show ?case by simp
next
  case (Cons p m)
  obtain k' v' where p: "p = (k', v')" by (cases p)
  show ?case using Cons.IH by (cases "k' = k") (simp_all add: p)
qed

lemma distinct_keys_Map_set:
  "distinct (map fst m) \<Longrightarrow> distinct (map fst (Map_set k v m))"
  by (simp add: keys_Map_set)

lemma Map_set_at_index:
  "distinct (map fst m) \<Longrightarrow> j < length m \<Longrightarrow> fst (m ! j) = k \<Longrightarrow>
   Map_set k v m = m[j := (k, v)]"
proof (induction m arbitrary: j)
  case Nil
  then show ?case by simp
next
  case (Cons p m)
  obtain k' v' where p: "p = (k', v')" by (cases p)
  show ?case
  proof (cases j)
    case 0
    with Cons.prems p show ?thesis by simp
  next
    case (Suc i)
    with Cons.prems p have i: "i < length m" "fst (m ! i) = k" by simp_all
    then have "k \<in> fst ` set m" using nth_mem [of i m] by (auto simp: image_iff)
    with Cons.prems p have "k' \<noteq> k" by (simp add: image_iff) blast
    moreover from Cons.prems have "distinct (map fst m)" by simp
    ultimately show ?thesis using Cons.IH [of i] i p Suc by simp
  qed
qed

lemma Map_get_on_keys:
  "distinct (map fst m) \<Longrightarrow> map (\<lambda>k. Map_get k m) (map fst m) = map Some (map snd m)"
proof (induction m)
  case Nil
  then show ?case by simp
next
  case (Cons p m)
  obtain k v where p: "p = (k, v)" by (cases p)
  from Cons.prems p have fresh: "k \<notin> set (map fst m)" and d: "distinct (map fst m)"
    by simp_all
  have "map (\<lambda>x. Map_get x ((k, v) # m)) (map fst m) = map (\<lambda>x. Map_get x m) (map fst m)"
    using fresh by (intro map_cong) auto
  with Cons.IH [OF d] p show ?case by simp
qed

lemma keys_are_ids_Map_set:
  "\<forall>p \<in> set m. fst p = f (snd p) \<Longrightarrow>
   \<forall>p \<in> set (Map_set (f v) v m). fst p = f (snd p)"
proof (induction m)
  case Nil
  then show ?case by simp
next
  case (Cons p m)
  obtain k' v' where p: "p = (k', v')" by (cases p)
  from Cons.prems have "\<forall>q \<in> set m. fst q = f (snd q)" by simp
  then have "\<forall>q \<in> set (Map_set (f v) v m). fst q = f (snd q)" by (rule Cons.IH)
  with Cons.prems show ?case by (cases "k' = f v") (simp_all add: p)
qed

section \<open>Facts about first occurrences\<close>

lemma set_first_occurrences: "set (first_occurrences xs) = set xs"
  by (induction xs) auto

lemma distinct_first_occurrences: "distinct (first_occurrences xs)"
  by (induction xs) (auto simp: distinct_removeAll)

lemma length_first_occurrences: "length (first_occurrences xs) = card (set xs)"
  using distinct_card [OF distinct_first_occurrences, of xs]
  by (simp add: set_first_occurrences)

section \<open>Facts about sequences of calls\<close>

lemma after_append: "after (cs @ cs') reg = after cs' (after cs reg)"
  by (induction cs arbitrary: reg) auto

lemma distinct_keys_after:
  "distinct (map fst reg) \<Longrightarrow> distinct (map fst (after cs reg))"
proof (induction cs arbitrary: reg)
  case Nil
  then show ?case by simp
next
  case (Cons c cs)
  then show ?case
    by (cases c) (simp_all add: registerGame_def distinct_keys_Map_set)
qed

lemma keys_are_ids_after:
  "\<forall>p \<in> set reg. fst p = id_engine (snd p) \<Longrightarrow>
   \<forall>p \<in> set (after cs reg). fst p = id_engine (snd p)"
proof (induction cs arbitrary: reg)
  case Nil
  then show ?case by simp
next
  case (Cons c cs)
  show ?case
  proof (cases c)
    case (RegisterGame e)
    have "\<forall>p \<in> set (registerGame e reg). fst p = id_engine (snd p)"
      unfolding registerGame_def using Cons.prems by (rule keys_are_ids_Map_set)
    then show ?thesis using Cons.IH [of "registerGame e reg"] RegisterGame by simp
  next
    case (GetGame i)
    then show ?thesis using Cons.IH [OF Cons.prems] by simp
  next
    case GetAllGames
    then show ?thesis using Cons.IH [OF Cons.prems] by simp
  qed
qed

lemma getGame_after:
  "getGame ident (after cs reg) =
     (case last_registered ident (registrations cs) of
        Some e \<Rightarrow> Some e
      | None \<Rightarrow> getGame ident reg)"
proof (induction cs arbitrary: reg)
  case Nil
  then show ?case by simp
next
  case (Cons c cs)
  show ?case
  proof (cases c)
    case (RegisterGame e)
    then show ?thesis
      using Cons.IH [of "registerGame e reg"]
      by (auto simp: getGame_def registerGame_def Map_get_set_same Map_get_set_other
          split: option.splits)
  next
    case (GetGame i)
    then show ?thesis using Cons.IH [of reg] by simp
  next
    case GetAllGames
    then show ?thesis using Cons.IH [of reg] by simp
  qed
qed

lemma keys_after:
  "distinct (map fst reg) \<Longrightarrow>
   map fst (after cs reg) =
     map fst reg @ filter (\<lambda>i. i \<notin> set (map fst reg)) (first_occurrences (registered_ids cs))"
proof (induction cs arbitrary: reg)
  case Nil
  then show ?case by (simp add: registered_ids_def)
next
  case (Cons c cs)
  show ?case
  proof (cases c)
    case (RegisterGame e)
    let ?k = "id_engine e"
    let ?reg' = "registerGame e reg"
    have d: "distinct (map fst ?reg')"
      using Cons.prems by (simp add: registerGame_def distinct_keys_Map_set)
    have ks: "map fst ?reg' = (if ?k \<in> set (map fst reg) then map fst reg else map fst reg @ [?k])"
      by (simp add: registerGame_def keys_Map_set)
    have ids: "registered_ids (c # cs) = ?k # registered_ids cs"
      using RegisterGame by (simp add: registered_ids_def)
    show ?thesis
    proof (cases "?k \<in> set (map fst reg)")
      case True
      then have "filter (\<lambda>i. i \<notin> set (map fst reg)) (removeAll ?k xs) =
                 filter (\<lambda>i. i \<notin> set (map fst reg)) xs" for xs
        by (induction xs) auto
      with Cons.IH [OF d] ks True ids RegisterGame show ?thesis by simp
    next
      case False
      have "filter (\<lambda>i. i \<noteq> ?k \<and> i \<notin> set (map fst reg)) xs =
            filter (\<lambda>i. i \<notin> set (map fst reg)) (removeAll ?k xs)" for xs
        by (induction xs) auto
      with Cons.IH [OF d] ks False ids RegisterGame show ?thesis by simp
    qed
  next
    case (GetGame i)
    then show ?thesis using Cons.IH [OF Cons.prems] by (simp add: registered_ids_def)
  next
    case GetAllGames
    then show ?thesis using Cons.IH [OF Cons.prems] by (simp add: registered_ids_def)
  qed
qed

lemma keys_after_fresh:
  "map fst (after cs gameRegistry) = first_occurrences (registered_ids cs)"
  using keys_after [of gameRegistry cs] by (simp add: gameRegistry_def new_Map_def)

lemma values_after_fresh:
  "map Some (map snd (after cs gameRegistry)) =
     map (\<lambda>i. last_registered i (registrations cs)) (first_occurrences (registered_ids cs))"
proof -
  let ?R = "after cs (gameRegistry :: ('a, 'b, 'c) registry)"
  have d: "distinct (map fst ?R)"
    by (rule distinct_keys_after) (simp add: gameRegistry_def new_Map_def)
  have get: "Map_get i ?R = last_registered i (registrations cs)" for i
    using getGame_after [of i cs "gameRegistry :: ('a, 'b, 'c) registry"]
    by (simp add: getGame_def gameRegistry_def new_Map_def split: option.splits)
  have "map Some (map snd ?R) = map (\<lambda>i. Map_get i ?R) (map fst ?R)"
    using Map_get_on_keys [OF d] by simp
  then show ?thesis by (simp only: get keys_after_fresh)
qed

section \<open>Properties of the registry\<close>

text \<open>
  C1. Whatever the registry holds, registering an engine and then looking up its
  identifier returns that very engine, so in particular an engine with that identifier.
\<close>

theorem register_then_get:
  "getGame (id_engine e) (registerGame e reg) = Some e"
  by (simp add: getGame_def registerGame_def Map_get_set_same)

text \<open>
  C2. Let two engines \<open>a\<close> and \<open>b\<close> have the same identifier. Register \<open>a\<close>, make any
  calls, then register \<open>b\<close>: a lookup of the identifier now returns \<open>b\<close>, and so not \<open>a\<close>
  when the two differ. The overwriting registration returns nothing, like any other.
\<close>

theorem later_registration_wins:
  "id_engine a = id_engine b \<Longrightarrow>
   getGame (id_engine a) (registerGame b (after cs (registerGame a reg))) = Some b
   \<and> (a \<noteq> b \<longrightarrow>
        getGame (id_engine a) (registerGame b (after cs (registerGame a reg))) \<noteq> Some a)
   \<and> fst (exec (RegisterGame b) (after cs (registerGame a reg))) = Void"
  by (simp add: getGame_def registerGame_def Map_get_set_same)

theorem later_registration_wins_witness:
  "id_engine (example_engine ''chess'' ''A'') = id_engine (example_engine ''chess'' ''B'')
   \<and> example_engine ''chess'' ''A'' \<noteq> example_engine ''chess'' ''B''
   \<and> getGame ''chess''
        (registerGame (example_engine ''chess'' ''B'')
          (after [GetGame ''chess'', RegisterGame (example_engine ''checkers'' ''C'')]
            (registerGame (example_engine ''chess'' ''A'') gameRegistry)))
       = Some (example_engine ''chess'' ''B'')
   \<and> getGame ''chess''
        (registerGame (example_engine ''chess'' ''B'')
          (after [GetGame ''chess'', RegisterGame (example_engine ''checkers'' ''C'')]
            (registerGame (example_engine ''chess'' ''A'') gameRegistry)))
       \<noteq> Some (example_engine ''chess'' ''A'')"
proof -
  have same: "id_engine (example_engine ''chess'' ''A'') = id_engine (example_engine ''chess'' ''B'')"
    by (simp add: example_engine_def)
  have differ: "example_engine ''chess'' ''A'' \<noteq> example_engine ''chess'' ''B''"
    by (simp add: example_engine_def)
  show ?thesis
    using same differ
      later_registration_wins [OF same,
        of "[GetGame ''chess'', RegisterGame (example_engine ''checkers'' ''C'')]" gameRegistry]
    by (simp add: example_engine_def)
qed

text \<open>
  C3. Start from the empty registry of a fresh process and make any calls. For an
  identifier under which none of them registered an engine, \<open>getGame\<close> finds nothing, and
  the call returns that absent value.
\<close>

theorem never_registered_not_found:
  "ident \<notin> set (registered_ids cs) \<Longrightarrow>
   getGame ident (after cs gameRegistry) = None
   \<and> fst (exec (GetGame ident) (after cs gameRegistry)) = Engine None"
proof -
  let ?R = "after cs (gameRegistry :: ('a, 'b, 'c) registry)"
  assume unreg: "ident \<notin> set (registered_ids cs)"
  have "map fst ?R = first_occurrences (registered_ids cs)"
    by (rule keys_after_fresh)
  then have "set (map fst ?R) = set (registered_ids cs)"
    by (simp only: set_first_occurrences)
  with unreg have "ident \<notin> fst ` set ?R" by simp
  then show ?thesis by (simp add: getGame_def Map_get_None_iff)
qed

theorem never_registered_not_found_witness:
  "''checkers'' \<notin> set (registered_ids [RegisterGame (example_engine ''chess'' ''Chess'')])
   \<and> getGame ''checkers''
        (after [RegisterGame (example_engine ''chess'' ''Chess'')] gameRegistry) = None
   \<and> getGame ''chess''
        (after [RegisterGame (example_engine ''chess'' ''Chess'')] gameRegistry)
       = Some (example_engine ''chess'' ''Chess'')
   \<and> length (getAllGames
        (after [RegisterGame (example_engine ''chess'' ''Chess'')] gameRegistry)) = 1"
proof -
  have unreg:
    "''checkers'' \<notin> set (registered_ids [RegisterGame (example_engine ''chess'' ''Chess'')])"
    by (simp add: registered_ids_def example_engine_def)
  show ?thesis
    using unreg never_registered_not_found [OF unreg]
    by (simp add: registerGame_def getGame_def getAllGames_def gameRegistry_def new_Map_def
        Map_values_def Array_from_def example_engine_def)
qed

text \<open>
  C4. After any calls on a fresh registry, \<open>getAllGames\<close> returns as many engines as
  there are distinct identifiers among the engines registered: registering an identifier
  again does not add to the count.
\<close>

theorem getAllGames_size:
  "length (getAllGames (after cs gameRegistry)) = card (set (registered_ids cs))"
proof -
  have "length (getAllGames (after cs (gameRegistry :: ('a, 'b, 'c) registry)))
        = length (map fst (after cs (gameRegistry :: ('a, 'b, 'c) registry)))"
    by (simp add: getAllGames_def Map_values_def Array_from_def)
  then show ?thesis by (simp only: keys_after_fresh length_first_occurrences)
qed

text \<open>
  C5. After any calls on a fresh registry, the map holds no identifier twice, every
  engine is stored under its own identifier, and what is stored under an identifier is
  the engine of the last registration with it (nothing, if there was none).
\<close>

theorem registry_invariant:
  "distinct (map fst (after cs gameRegistry))
   \<and> map fst (after cs gameRegistry) = map id_engine (getAllGames (after cs gameRegistry))
   \<and> (\<forall>ident. getGame ident (after cs gameRegistry)
                = last_registered ident (registrations cs))"
proof -
  let ?R = "after cs (gameRegistry :: ('a, 'b, 'c) registry)"
  have "distinct (map fst ?R)"
    by (rule distinct_keys_after) (simp add: gameRegistry_def new_Map_def)
  moreover have "\<forall>p \<in> set ?R. fst p = id_engine (snd p)"
    by (rule keys_are_ids_after) (simp add: gameRegistry_def new_Map_def)
  then have "map fst ?R = map id_engine (getAllGames ?R)"
    by (simp add: getAllGames_def Map_values_def Array_from_def)
  moreover have "getGame ident ?R = last_registered ident (registrations cs)" for ident
    using getGame_after [of ident cs "gameRegistry :: ('a, 'b, 'c) registry"]
    by (simp add: getGame_def gameRegistry_def new_Map_def split: option.splits)
  ultimately show ?thesis by blast
qed

text \<open>
  C7. After any calls on a fresh registry, \<open>getAllGames\<close> lists one engine for each
  identifier registered, the identifiers standing in the order of their first
  registration, and each engine being the one currently registered under its identifier.
\<close>

theorem getAllGames_insertion_order:
  "map id_engine (getAllGames (after cs gameRegistry)) = first_occurrences (registered_ids cs)
   \<and> map Some (getAllGames (after cs gameRegistry))
       = map (\<lambda>i. getGame i (after cs gameRegistry)) (first_occurrences (registered_ids cs))"
proof -
  let ?R = "after cs (gameRegistry :: ('a, 'b, 'c) registry)"
  have "\<forall>p \<in> set ?R. fst p = id_engine (snd p)"
    by (rule keys_are_ids_after) (simp add: gameRegistry_def new_Map_def)
  then have "map id_engine (getAllGames ?R) = map fst ?R"
    by (simp add: getAllGames_def Map_values_def Array_from_def)
  then have ids: "map id_engine (getAllGames ?R) = first_occurrences (registered_ids cs)"
    by (simp only: keys_after_fresh)
  have get: "getGame i ?R = last_registered i (registrations cs)" for i
    using getGame_after [of i cs "gameRegistry :: ('a, 'b, 'c) registry"]
    by (simp add: getGame_def gameRegistry_def new_Map_def split: option.splits)
  have "map Some (map snd ?R)
        = map (\<lambda>i. last_registered i (registrations cs)) (first_occurrences (registered_ids cs))"
    by (rule values_after_fresh)
  then have "map Some (getAllGames ?R)
        = map (\<lambda>i. getGame i ?R) (first_occurrences (registered_ids cs))"
    by (simp add: getAllGames_def Map_values_def Array_from_def get)
  with ids show ?thesis by blast
qed

text \<open>
  C8. A call of \<open>getGame\<close> leaves the registry as it was, so every later sequence of
  calls returns the same values and ends in the same registry as without it.
\<close>

theorem getGame_pure:
  "snd (exec (GetGame ident) reg) = reg
   \<and> results cs (snd (exec (GetGame ident) reg)) = results cs reg
   \<and> after cs (snd (exec (GetGame ident) reg)) = after cs reg"
  by simp

text \<open>
  C9. Registering an engine does not change what a lookup of any other identifier
  returns.
\<close>

theorem register_frame:
  "ident \<noteq> id_engine e \<Longrightarrow> getGame ident (registerGame e reg) = getGame ident reg"
  by (simp add: getGame_def registerGame_def Map_get_set_other)

theorem register_frame_witness:
  "''chess'' \<noteq> id_engine (example_engine ''checkers'' ''Checkers'')
   \<and> getGame ''chess''
        (registerGame (example_engine ''checkers'' ''Checkers'')
          (registerGame (example_engine ''chess'' ''Chess'') gameRegistry))
       = Some (example_engine ''chess'' ''Chess'')"
proof -
  have other: "''chess'' \<noteq> id_engine (example_engine ''checkers'' ''Checkers'')"
    by (simp add: example_engine_def)
  show ?thesis
    using other
      register_frame [OF other, of "registerGame (example_engine ''chess'' ''Chess'') gameRegistry"]
    by (simp add: registerGame_def getGame_def gameRegistry_def new_Map_def example_engine_def)
qed

text \<open>
  C10. After any calls on a fresh registry, registering an engine whose identifier is
  that of the engine at some position of the array \<open>getAllGames\<close> returns puts the new
  engine at that position and changes nothing else: the array is not extended.
\<close>

theorem reregister_keeps_position:
  "k < length (getAllGames (after cs gameRegistry)) \<Longrightarrow>
   id_engine (getAllGames (after cs gameRegistry) ! k) = id_engine e \<Longrightarrow>
   getAllGames (registerGame e (after cs gameRegistry))
     = (getAllGames (after cs gameRegistry))[k := e]"
proof -
  let ?R = "after cs (gameRegistry :: ('a, 'b, 'c) registry)"
  assume k: "k < length (getAllGames ?R)"
    and same: "id_engine (getAllGames ?R ! k) = id_engine e"
  have d: "distinct (map fst ?R)"
    by (rule distinct_keys_after) (simp add: gameRegistry_def new_Map_def)
  have ids: "\<forall>p \<in> set ?R. fst p = id_engine (snd p)"
    by (rule keys_are_ids_after) (simp add: gameRegistry_def new_Map_def)
  from k have k': "k < length ?R"
    by (simp add: getAllGames_def Map_values_def Array_from_def)
  with ids have "fst (?R ! k) = id_engine (snd (?R ! k))" by simp
  with same k' have key: "fst (?R ! k) = id_engine e"
    by (simp add: getAllGames_def Map_values_def Array_from_def)
  have "registerGame e ?R = ?R[k := (id_engine e, e)]"
    unfolding registerGame_def using d k' key by (rule Map_set_at_index)
  then show ?thesis
    by (simp add: getAllGames_def Map_values_def Array_from_def map_update)
qed

theorem reregister_keeps_position_witness:
  "(0::nat) < length (getAllGames
       (after [RegisterGame (example_engine ''chess'' ''A''),
               RegisterGame (example_engine ''checkers'' ''C'')] gameRegistry))
   \<and> id_engine (getAllGames
       (after [RegisterGame (example_engine ''chess'' ''A''),
               RegisterGame (example_engine ''checkers'' ''C'')] gameRegistry) ! 0)
       = id_engine (example_engine ''chess'' ''B'')
   \<and> getAllGames (registerGame (example_engine ''chess'' ''B'')
       (after [RegisterGame (example_engine ''chess'' ''A''),
               RegisterGame (example_engine ''checkers'' ''C'')] gameRegistry))
       = [example_engine ''chess'' ''B'', example_engine ''checkers'' ''C'']"
proof -
  let ?cs = "[RegisterGame (example_engine ''chess'' ''A''),
              RegisterGame (example_engine ''checkers'' ''C'')]"
  have pos: "(0::nat) < length (getAllGames (after ?cs gameRegistry))"
    by (simp add: registerGame_def getAllGames_def gameRegistry_def new_Map_def
        Map_values_def Array_from_def example_engine_def)
  have same: "id_engine (getAllGames (after ?cs gameRegistry) ! 0)
              = id_engine (example_engine ''chess'' ''B'')"
    by (simp add: registerGame_def getAllGames_def gameRegistry_def new_Map_def
        Map_values_def Array_from_def example_engine_def)
  show ?thesis
    using pos same reregister_keeps_position [OF pos same]
    by (simp add: registerGame_def getAllGames_def gameRegistry_def new_Map_def
        Map_values_def Array_from_def example_engine_def)
qed

end
